theory Spec2Isabelle
  imports Main "HOL-Library.Word" "HOL-Library.Char_ord" "HOL-Library.List_Lexorder"
    "HOL-Library.Sublist"
begin

text \<open>
  A model of the event store of bloritsch/eventstore: identifier generation
  (idgenerator.go) and the store over the badger key-value engine, with its operations
  \<open>Register\<close>, \<open>Append\<close>, \<open>Read\<close>, \<open>ListKeys\<close>, \<open>ListKeysForAggregate\<close> and \<open>Close\<close>.
  What the code takes from its environment is an argument of the model: the reading of
  the clock in \<open>Append\<close>, and the bytes the random generator yields for a seed. The
  libraries the code calls (ulid, gob, json, badger, reflect) are modelled by the behaviour
  the code relies on.
\<close>

section \<open>Values, types and results\<close>

text \<open>
  The event store takes its payloads as \<open>interface{}\<close>. A payload is modelled by the
  values the payload codec (encoding/gob) transmits exactly: integers, strings and structs
  of exported fields. A struct value carries the name of its type as \<open>%T\<close> prints it,
  for instance \<open>eventstore.Test\<close>. A \<open>reflect.Type\<close> is identified by that name.
\<close>

datatype govalue =
    GoInt int
  | GoString string
  | GoStruct string "(string \<times> govalue) list"

type_synonym gotype = string

fun TypeOf :: "govalue \<Rightarrow> gotype" where
  "TypeOf (GoInt i) = ''int''"
| "TypeOf (GoString s) = ''string''"
| "TypeOf (GoStruct n fs) = n"

text \<open>An instance made by reflection: the zero value of a type.\<close>

datatype goinstance = ZeroOf gotype

text \<open>
  Every operation either returns normally, returns a Go \<open>error\<close>, or panics.
\<close>

datatype error =
    ErrGobTypeNotRegistered string
  | ErrGobNameNotRegistered string
  | ErrGobCorrupt
  | ErrJSONSyntax
  | ErrJSONTimeYear
  | ErrBadgerDisklessWithDir
  | ErrBadgerEngine string

datatype panic =
    PanicBigTime
  | PanicReflectNewNil

datatype 'a outcome = Ok 'a | Err error | Panic panic

section \<open>Identifiers (idgenerator.go)\<close>

text \<open>
  A \<open>time.Time\<close> is the instant it denotes, in nanoseconds since the Unix epoch (UTC).
  \<open>Unix\<close> is the number of whole seconds, \<open>Nanosecond\<close> the offset within the second,
  \<open>UnixNano\<close> the 64-bit count of nanoseconds (it wraps outside the years 1678 to 2262).
\<close>

type_synonym time = int

definition Unix :: "time \<Rightarrow> int" where
  "Unix t = t div 1000000000"

definition Nanosecond :: "time \<Rightarrow> int" where
  "Nanosecond t = t mod 1000000000"

definition UnixNano :: "time \<Rightarrow> 64 word" where
  "UnixNano t = word_of_int t"

text \<open>
  A ULID is 16 bytes: a 48-bit big-endian millisecond timestamp followed by 80 bits of
  entropy.
\<close>

datatype ULID = ULID (ulid_time: "48 word") (ulid_entropy: "80 word")

text \<open>\<open>ulid.Timestamp\<close>: \<open>uint64(t.Unix())*1000 + uint64(t.Nanosecond()/int(time.Millisecond))\<close>.\<close>

definition ulid_Timestamp :: "time \<Rightarrow> 64 word" where
  "ulid_Timestamp t = word_of_int (Unix t) * 1000 + word_of_int (Nanosecond t div 1000000)"

definition maxTime :: "64 word" where
  "maxTime = 281474976710655"

text \<open>
  \<open>ulid.MustNew\<close> panics when the timestamp does not fit 48 bits; otherwise it sets the
  time and fills the remaining ten bytes from the entropy reader. The reader here is a
  fresh \<open>ulid.Monotonic\<close> wrapper, whose state is empty on its first and only read, so the
  ten bytes are the first ten bytes of the underlying random source.
\<close>

definition ulid_MustNew :: "64 word \<Rightarrow> 80 word \<Rightarrow> ULID outcome" where
  "ulid_MustNew ms entropy =
     (if ms > maxTime then Panic PanicBigTime else Ok (ULID (ucast ms) entropy))"

text \<open>
  \<open>NewId\<close> seeds a new math/rand source with \<open>t.UnixNano()\<close> on every call. The
  generator itself lies outside the repository: \<open>rnd seed\<close> stands for the first ten bytes
  that a source seeded with \<open>seed\<close> produces.
\<close>

definition NewId :: "(64 word \<Rightarrow> 80 word) \<Rightarrow> time \<Rightarrow> ULID outcome" where
  "NewId rnd t =
     (let source = UnixNano t;
          entropy = rnd source
      in ulid_MustNew (ulid_Timestamp t) entropy)"

text \<open>
  \<open>ULID.MarshalText\<close>: 26 characters of Crockford base 32, ten for the timestamp and
  sixteen for the entropy, most significant digit first.
\<close>

definition Encoding :: string where
  "Encoding = ''0123456789ABCDEFGHJKMNPQRSTVWXYZ''"

fun enc32 :: "nat \<Rightarrow> nat \<Rightarrow> string" where
  "enc32 0 n = []"
| "enc32 (Suc k) n = Encoding ! ((n div 32 ^ k) mod 32) # enc32 k n"

definition MarshalText :: "ULID \<Rightarrow> string" where
  "MarshalText u = enc32 10 (unat (ulid_time u)) @ enc32 16 (unat (ulid_entropy u))"

text \<open>\<open>ULID.Compare\<close> is the byte order of the 16 bytes.\<close>

definition ulid_le :: "ULID \<Rightarrow> ULID \<Rightarrow> bool" where
  "ulid_le a b =
     (ulid_time a < ulid_time b \<or> (ulid_time a = ulid_time b \<and> ulid_entropy a \<le> ulid_entropy b))"

section \<open>The payload and envelope codecs\<close>

text \<open>
  Byte strings produced by encoding/gob and encoding/json are modelled by what they
  parse to: either the encoding of a value, or bytes that are no such encoding. The
  codecs themselves are outside the repository; the model keeps that a decoder inverts
  its encoder, which names the stream carries, and how each call can fail.
\<close>

datatype gob_bytes =
    GobInterface string govalue
  | GobJunk string

record Record =
  Id' :: ULID
  Timestamp :: time
  Type :: string
  Content :: gob_bytes

datatype json_bytes =
    JsonRecord "Record"
  | JsonJunk string

text \<open>
  gob keeps one process-wide registry of names for the concrete types that may travel in
  an interface value. The basic types are registered when the package is initialised.
\<close>

definition gob_basics :: "string set" where
  "gob_basics = {''int'', ''string''}"

definition gob_Register :: "govalue \<Rightarrow> string set \<Rightarrow> string set" where
  "gob_Register t reg = insert (TypeOf t) reg"

text \<open>
  \<open>enc.Encode(&content)\<close> sends the interface value: the registered name of its
  concrete type, then the value. It fails for a type that has no registered name.
\<close>

definition gob_Encode :: "string set \<Rightarrow> govalue \<Rightarrow> error + gob_bytes" where
  "gob_Encode reg content =
     (if TypeOf content \<in> reg then Inr (GobInterface (TypeOf content) content)
      else Inl (ErrGobTypeNotRegistered (TypeOf content)))"

text \<open>
  \<open>dec.Decode(&v)\<close> into an interface variable reads the name, allocates a value of the
  type registered under it and stores the decoded value in \<open>v\<close>, whatever \<open>v\<close> held.
\<close>

fun gob_Decode :: "string set \<Rightarrow> gob_bytes \<Rightarrow> goinstance \<Rightarrow> error + govalue" where
  "gob_Decode reg (GobInterface name x) v =
     (if name \<in> reg then Inr x else Inl (ErrGobNameNotRegistered name))"
| "gob_Decode reg (GobJunk bs) v = Inl ErrGobCorrupt"

text \<open>
  \<open>json.Marshal(record)\<close>: the only field whose encoding can fail is the timestamp,
  whose year must lie in 0 to 9999.
\<close>

definition year0 :: time where
  "year0 = - 62167219200 * 1000000000"

definition year10000 :: time where
  "year10000 = 253402300800 * 1000000000"

definition json_Marshal :: "Record \<Rightarrow> error + json_bytes" where
  "json_Marshal r =
     (if Timestamp r < year0 \<or> year10000 \<le> Timestamp r then Inl ErrJSONTimeYear
      else Inr (JsonRecord r))"

text \<open>\<open>json.Unmarshal(val, &record)\<close> fails on bytes that are not the encoding of a record.\<close>

fun json_Unmarshal :: "json_bytes \<Rightarrow> error + Record" where
  "json_Unmarshal (JsonRecord r) = Inr r"
| "json_Unmarshal (JsonJunk bs) = Inl ErrJSONSyntax"

section \<open>The key-value engine\<close>

text \<open>
  The engine (badger) is an ordered map from byte-string keys to byte-string values; an
  iterator walks it in the byte order of the keys. A table is the list of its entries in
  that order. A handle knows whether it was opened in memory; the entries of an on-disk
  handle are also what the directory holds.
\<close>

type_synonym table = "(string \<times> json_bytes) list"

record DB =
  inMemory :: bool
  items :: table

record Options =
  Dir :: string
  InMemory :: bool
  OptEncryptionKey :: "string option"
  OptEncryptionKeyRotationDuration :: int
  IndexCacheSize :: nat

definition DefaultOptions :: "string \<Rightarrow> Options" where
  "DefaultOptions path = \<lparr>Dir = path, InMemory = False, OptEncryptionKey = None,
     OptEncryptionKeyRotationDuration = 0, IndexCacheSize = 0\<rparr>"

text \<open>\<open>txn.Set\<close>: the entry is put at its place in key order; an equal key is overwritten.\<close>

fun kv_Set :: "string \<Rightarrow> json_bytes \<Rightarrow> table \<Rightarrow> table" where
  "kv_Set key val [] = [(key, val)]"
| "kv_Set key val ((k, v) # rest) =
     (if key < k then (key, val) # (k, v) # rest
      else if key = k then (key, val) # rest
      else (k, v) # kv_Set key val rest)"

text \<open>\<open>it.Seek(prefix)\<close> moves to the first entry whose key is not below the prefix.\<close>

definition Seek :: "string \<Rightarrow> table \<Rightarrow> table" where
  "Seek pre t = dropWhile (\<lambda>(k, v). k < pre) t"

definition ValidForPrefix :: "string \<Rightarrow> string \<Rightarrow> bool" where
  "ValidForPrefix pre key = prefix pre key"

section \<open>The store (BadgerEventStore)\<close>

record BadgerEventStore =
  RootDir :: string
  MemoryOnly :: bool
  EncryptionKey :: "string option"
  EncryptionRotationDuration :: int
  db :: "DB option"
  typeRegistery :: "string \<rightharpoonup> gotype"

text \<open>
  The process around a store: gob's process-wide registry, the entries that the engine
  directory holds, and whether the engine currently refuses its calls (\<open>fault\<close>).
\<close>

record process =
  store :: BadgerEventStore
  gobRegistry :: "string set"
  disk :: table
  fault :: "error option"

definition MemoryStore :: BadgerEventStore where
  "MemoryStore = \<lparr>RootDir = [], MemoryOnly = True, EncryptionKey = None,
     EncryptionRotationDuration = 0, db = None, typeRegistery = Map.empty\<rparr>"

definition FileStore :: "string \<Rightarrow> string option \<Rightarrow> int \<Rightarrow> BadgerEventStore" where
  "FileStore path key rotationDur = \<lparr>RootDir = path, MemoryOnly = False, EncryptionKey = key,
     EncryptionRotationDuration = rotationDur, db = None, typeRegistery = Map.empty\<rparr>"

text \<open>A process that has just started and created its store.\<close>

definition start :: "BadgerEventStore \<Rightarrow> table \<Rightarrow> process" where
  "start s files = \<lparr>store = s, gobRegistry = gob_basics, disk = files, fault = None\<rparr>"

text \<open>
  \<open>badger.Open\<close>: an in-memory engine must not be given a directory and starts empty; an
  on-disk engine starts with what the directory holds.
\<close>

definition badger_Open :: "process \<Rightarrow> Options \<Rightarrow> error + DB" where
  "badger_Open p opts =
     (case fault p of
        Some e \<Rightarrow> Inl e
      | None \<Rightarrow>
          if InMemory opts \<and> Dir opts \<noteq> [] then Inl ErrBadgerDisklessWithDir
          else if InMemory opts then Inr \<lparr>inMemory = True, items = []\<rparr>
          else Inr \<lparr>inMemory = False, items = disk p\<rparr>)"

definition badger_Close :: "process \<Rightarrow> DB \<Rightarrow> error option" where
  "badger_Close p h = fault p"

definition kvstore :: "process \<Rightarrow> (error + DB) \<times> process" where
  "kvstore p =
     (case db (store p) of
        Some h \<Rightarrow> (Inr h, p)
      | None \<Rightarrow>
          (let opts = (DefaultOptions (RootDir (store p)))\<lparr>InMemory := MemoryOnly (store p)\<rparr>;
               opts = (case EncryptionKey (store p) of
                         None \<Rightarrow> opts
                       | Some k \<Rightarrow>
                           if length k \<ge> 128
                           then opts\<lparr>OptEncryptionKey := Some k,
                                  OptEncryptionKeyRotationDuration :=
                                    EncryptionRotationDuration (store p),
                                  IndexCacheSize := 104857600\<rparr>
                           else opts)
           in case badger_Open p opts of
                Inl err \<Rightarrow> (Inl err, p)
              | Inr h \<Rightarrow> (Inr h, p\<lparr>store := (store p)\<lparr>db := Some h\<rparr>\<rparr>)))"

text \<open>
  \<open>db.Update(func(txn) { return txn.Set(key, value) })\<close> on the handle the store holds:
  one committed write, or the engine's error and no write.
\<close>

definition db_Update :: "DB \<Rightarrow> string \<Rightarrow> json_bytes \<Rightarrow> process \<Rightarrow> error option \<times> process" where
  "db_Update h key val p =
     (case fault p of
        Some e \<Rightarrow> (Some e, p)
      | None \<Rightarrow>
          (let h' = h\<lparr>items := kv_Set key val (items h)\<rparr>
           in (None, p\<lparr>store := (store p)\<lparr>db := Some h'\<rparr>,
                       disk := (if inMemory h then disk p else items h')\<rparr>)))"

definition typeName :: "govalue \<Rightarrow> string" where
  "typeName t = TypeOf t"

definition Append ::
  "(64 word \<Rightarrow> 80 word) \<Rightarrow> time \<Rightarrow> string \<Rightarrow> govalue \<Rightarrow> process \<Rightarrow> unit outcome \<times> process" where
  "Append rnd now aggregate content p =
     (case NewId rnd now of
        Panic x \<Rightarrow> (Panic x, p)
      | Err e \<Rightarrow> (Err e, p)
      | Ok ident \<Rightarrow>
          (case gob_Encode (gobRegistry p) content of
             Inl err \<Rightarrow> (Err err, p)
           | Inr c \<Rightarrow>
               (let record = \<lparr>Id' = ident, Timestamp = now, Type = typeName content, Content = c\<rparr>;
                    k = MarshalText (Id' record);
                    key = aggregate @ '':'' @ k
                in case json_Marshal record of
                     Inl err \<Rightarrow> (Err err, p)
                   | Inr val \<Rightarrow>
                       (case kvstore p of
                          (Inl err, p') \<Rightarrow> (Err err, p')
                        | (Inr h, p') \<Rightarrow>
                            (case db_Update h key val p' of
                               (Some err, p'') \<Rightarrow> (Err err, p'')
                             | (None, p'') \<Rightarrow> (Ok (), p''))))))"

definition Register :: "govalue \<Rightarrow> process \<Rightarrow> process" where
  "Register t p =
     (let p = p\<lparr>gobRegistry := gob_Register t (gobRegistry p)\<rparr>;
          name = typeName t
      in p\<lparr>store := (store p)\<lparr>typeRegistery := (typeRegistery (store p))(name \<mapsto> TypeOf t)\<rparr>\<rparr>)"

text \<open>
  \<open>reflect.New(b.typeRegistery[name])\<close>: a missing map entry reads as the nil type, and
  \<open>reflect.New(nil)\<close> panics.
\<close>

definition makeInstance :: "process \<Rightarrow> string \<Rightarrow> goinstance outcome" where
  "makeInstance p name =
     (case typeRegistery (store p) name of
        None \<Rightarrow> Panic PanicReflectNewNil
      | Some T \<Rightarrow> Ok (ZeroOf T))"

text \<open>The function \<open>Read\<close> passes to \<open>item.Value\<close>.\<close>

definition item_Value :: "process \<Rightarrow> json_bytes \<Rightarrow> govalue outcome" where
  "item_Value p val =
     (case json_Unmarshal val of
        Inl err \<Rightarrow> Err err
      | Inr record \<Rightarrow>
          (case makeInstance p (Type record) of
             Panic x \<Rightarrow> Panic x
           | Err e \<Rightarrow> Err e
           | Ok v \<Rightarrow>
               (case gob_Decode (gobRegistry p) (Content record) v of
                  Inl err \<Rightarrow> Err err
                | Inr v' \<Rightarrow> Ok v')))"

text \<open>
  The loop of \<open>Read\<close>; the second argument is the part of the table from the iterator's
  position on.
\<close>

fun Read_loop :: "process \<Rightarrow> string \<Rightarrow> table \<Rightarrow> govalue list \<Rightarrow> govalue list outcome" where
  "Read_loop p pre [] values = Ok values"
| "Read_loop p pre ((k, val) # rest) values =
     (if \<not> ValidForPrefix pre k then Ok values
      else case item_Value p val of
             Ok v \<Rightarrow> Read_loop p pre rest (values @ [v])
           | Err err \<Rightarrow> Err err
           | Panic x \<Rightarrow> Panic x)"

definition Read :: "string \<Rightarrow> process \<Rightarrow> govalue list outcome \<times> process" where
  "Read aggregate p =
     (case kvstore p of
        (Inl err, p') \<Rightarrow> (Err err, p')
      | (Inr h, p') \<Rightarrow>
          (let pre = aggregate @ '':''
           in (Read_loop p' pre (Seek pre (items h)) [], p')))"

fun ListKeys_loop :: "table \<Rightarrow> string list \<Rightarrow> string list" where
  "ListKeys_loop [] keys = keys"
| "ListKeys_loop ((k, val) # rest) keys = ListKeys_loop rest (keys @ [k])"

definition ListKeys :: "process \<Rightarrow> string list outcome \<times> process" where
  "ListKeys p =
     (case kvstore p of
        (Inl err, p') \<Rightarrow> (Err err, p')
      | (Inr h, p') \<Rightarrow> (Ok (ListKeys_loop (items h) []), p'))"

fun ListKeysForAggregate_loop :: "string \<Rightarrow> table \<Rightarrow> string list \<Rightarrow> string list" where
  "ListKeysForAggregate_loop pre [] keys = keys"
| "ListKeysForAggregate_loop pre ((k, val) # rest) keys =
     (if \<not> ValidForPrefix pre k then keys
      else ListKeysForAggregate_loop pre rest (keys @ [k]))"

definition ListKeysForAggregate :: "string \<Rightarrow> process \<Rightarrow> string list outcome \<times> process" where
  "ListKeysForAggregate aggregate p =
     (let pre = aggregate @ '':''
      in case kvstore p of
           (Inl err, p') \<Rightarrow> (Err err, p')
         | (Inr h, p') \<Rightarrow> (Ok (ListKeysForAggregate_loop pre (Seek pre (items h)) []), p'))"

definition Close :: "process \<Rightarrow> unit outcome \<times> process" where
  "Close p =
     (case db (store p) of
        None \<Rightarrow> (Ok (), p)
      | Some h \<Rightarrow>
          (case badger_Close p h of
             Some err \<Rightarrow> (Err err, p)
           | None \<Rightarrow> (Ok (), p\<lparr>store := (store p)\<lparr>db := None\<rparr>\<rparr>)))"

section \<open>Auxiliary notions\<close>

text \<open>The engine keeps its entries in strictly increasing key order.\<close>

definition sorted_keys :: "table \<Rightarrow> bool" where
  "sorted_keys t = sorted_wrt (<) (map fst t)"

text \<open>An entry whose key starts with the given bytes.\<close>

definition has_prefix :: "string \<Rightarrow> string \<times> json_bytes \<Rightarrow> bool" where
  "has_prefix pre e = prefix pre (fst e)"

text \<open>
  What the engine holds is in key order: the directory, and the open handle if there is one.
\<close>

definition engine_ok :: "process \<Rightarrow> bool" where
  "engine_ok p =
     (sorted_keys (disk p) \<and> (case db (store p) of None \<Rightarrow> True | Some h \<Rightarrow> sorted_keys (items h)))"

text \<open>
  A type has been passed to \<open>Register\<close>: gob knows its name and the store's registry
  has an entry under it.
\<close>

definition registered :: "process \<Rightarrow> gotype \<Rightarrow> bool" where
  "registered p T = (T \<in> gobRegistry p \<and> typeRegistery (store p) T \<noteq> None)"

text \<open>The identifier \<open>NewId\<close> builds when the timestamp fits, and the record and key of an append.\<close>

definition id_at :: "(64 word \<Rightarrow> 80 word) \<Rightarrow> time \<Rightarrow> ULID" where
  "id_at rnd t = ULID (ucast (ulid_Timestamp t)) (rnd (UnixNano t))"

definition record_at :: "(64 word \<Rightarrow> 80 word) \<Rightarrow> time \<Rightarrow> govalue \<Rightarrow> Record" where
  "record_at rnd t v = \<lparr>Id' = id_at rnd t, Timestamp = t, Type = typeName v,
     Content = GobInterface (TypeOf v) v\<rparr>"

definition key_at :: "(64 word \<Rightarrow> 80 word) \<Rightarrow> time \<Rightarrow> string \<Rightarrow> string" where
  "key_at rnd t aggregate = aggregate @ '':'' @ MarshalText (id_at rnd t)"

text \<open>The payload type of the repository's tests: \<open>type Test struct { Value int }\<close>.\<close>

definition Test :: "int \<Rightarrow> govalue" where
  "Test n = GoStruct ''eventstore.Test'' [(''Value'', GoInt n)]"

text \<open>The identifiers of the records an open handle holds, in key order.\<close>

definition record_ids :: "table \<Rightarrow> ULID list" where
  "record_ids t =
     concat (map (\<lambda>(k, val). case json_Unmarshal val of Inr r \<Rightarrow> [Id' r] | Inl e \<Rightarrow> []) t)"

definition stored_ids :: "process \<Rightarrow> ULID list" where
  "stored_ids p = (case db (store p) of Some h \<Rightarrow> record_ids (items h) | None \<Rightarrow> [])"

text \<open>A history of appends, each with the clock reading it saw.\<close>

fun Appends ::
  "(64 word \<Rightarrow> 80 word) \<Rightarrow> (time \<times> string \<times> govalue) list \<Rightarrow> process \<Rightarrow> process" where
  "Appends rnd [] p = p"
| "Appends rnd ((now, aggregate, content) # es) p =
     Appends rnd es (snd (Append rnd now aggregate content p))"

text \<open>The entry an append writes.\<close>

definition entry_at ::
  "(64 word \<Rightarrow> 80 word) \<Rightarrow> string \<Rightarrow> time \<times> govalue \<Rightarrow> string \<times> json_bytes" where
  "entry_at rnd aggregate e =
     (key_at rnd (fst e) aggregate, JsonRecord (record_at rnd (fst e) (snd e)))"

section \<open>Properties of the engine\<close>

lemma prefix_not_less: "prefix pre (k::string) \<Longrightarrow> \<not> k < pre"
proof (induction pre arbitrary: k)
  case Nil then show ?case by simp
next
  case (Cons x xs)
  then obtain k' where "k = x # k'" "prefix xs k'" by (cases k) auto
  with Cons.IH show ?case by simp
qed

lemma prefix_between:
  "\<not> a < pre \<Longrightarrow> a < b \<Longrightarrow> prefix pre b \<Longrightarrow> prefix pre (a::string)"
proof (induction pre arbitrary: a b)
  case Nil then show ?case by simp
next
  case (Cons x xs)
  from Cons.prems(3) obtain b' where b: "b = x # b'" "prefix xs b'" by (cases b) auto
  from Cons.prems(1) obtain y a' where a: "a = y # a'" by (cases a) auto
  from Cons.prems(1,2) a b have "y = x" "\<not> a' < xs" "a' < b'" by auto
  with Cons.IH b a show ?case by simp
qed

lemma has_prefix_simp [simp]: "has_prefix pre (k, v) = prefix pre k"
  by (simp add: has_prefix_def)

lemma kv_Set_keys: "fst ` set (kv_Set k v t) = insert k (fst ` set t)"
  by (induction k v t rule: kv_Set.induct) auto

lemma sorted_keys_kv_Set: "sorted_keys t \<Longrightarrow> sorted_keys (kv_Set k v t)"
proof (induction t)
  case Nil then show ?case by (simp add: sorted_keys_def)
next
  case (Cons e t)
  obtain k' v' where e: "e = (k', v')" by (cases e)
  from Cons.prems have st: "sorted_keys t" and lt: "\<forall>x\<in>set (map fst t). k' < x"
    by (auto simp: sorted_keys_def e)
  show ?case
  proof (cases "k < k'")
    case True
    with Cons.prems lt show ?thesis by (auto simp: sorted_keys_def e)
  next
    case False
    show ?thesis
    proof (cases "k = k'")
      case True
      with Cons.prems show ?thesis by (auto simp: sorted_keys_def e)
    next
      case neq: False
      with False have "k' < k" by simp
      moreover have "sorted_keys (kv_Set k v t)" using Cons.IH st by simp
      ultimately show ?thesis using False neq lt
        by (simp add: sorted_keys_def e kv_Set_keys)
    qed
  qed
qed

lemma filter_kv_Set_other:
  "\<not> prefix pre k \<Longrightarrow> filter (has_prefix pre) (kv_Set k v t) = filter (has_prefix pre) t"
  by (induction k v t rule: kv_Set.induct) auto


lemma takeWhile_sorted_prefix:
  "sorted_keys t \<Longrightarrow> (t = [] \<or> \<not> fst (hd t) < pre) \<Longrightarrow>
   takeWhile (has_prefix pre) t = filter (has_prefix pre) t"
proof (induction t)
  case Nil then show ?case by simp
next
  case (Cons e t)
  obtain k v where e: "e = (k, v)" by (cases e)
  from Cons.prems have st: "sorted_keys t" and lt: "\<forall>x\<in>set t. k < fst x" and ge: "\<not> k < pre"
    by (auto simp: sorted_keys_def e)
  show ?case
  proof (cases "prefix pre k")
    case True
    have "t = [] \<or> \<not> fst (hd t) < pre"
    proof (cases t)
      case Nil then show ?thesis by simp
    next
      case (Cons e' t')
      with lt have "k < fst e'" by simp
      with ge have "\<not> fst e' < pre" by auto
      with Cons show ?thesis by simp
    qed
    with Cons.IH st True show ?thesis by (simp add: e)
  next
    case False
    have "\<not> prefix pre (fst x)" if "x \<in> set t" for x
      using prefix_between[OF ge _ , of "fst x"] lt that False by blast
    then have "filter (has_prefix pre) t = []" by (auto simp: has_prefix_def filter_empty_conv)
    with False show ?thesis by (simp add: e)
  qed
qed

lemma Seek_filter:
  "sorted_keys t \<Longrightarrow> takeWhile (has_prefix pre) (Seek pre t) = filter (has_prefix pre) t"
proof (induction t)
  case Nil then show ?case by (simp add: Seek_def)
next
  case (Cons e t)
  obtain k v where e: "e = (k, v)" by (cases e)
  from Cons.prems have st: "sorted_keys t" by (auto simp: sorted_keys_def)
  show ?case
  proof (cases "k < pre")
    case True
    then have "\<not> prefix pre k" using prefix_not_less by blast
    with True Cons.IH st show ?thesis by (simp add: Seek_def e)
  next
    case False
    then have "Seek pre (e # t) = e # t" by (simp add: Seek_def e)
    with takeWhile_sorted_prefix[OF Cons.prems, of pre] False show ?thesis by (simp add: e)
  qed
qed

section \<open>Properties of identifiers and keys\<close>

lemma length_Encoding: "length Encoding = 32"
  by (simp add: Encoding_def)

lemma enc32_subset: "set (enc32 k n) \<subseteq> set Encoding"
  by (induction k) (auto simp: length_Encoding)

lemma length_enc32 [simp]: "length (enc32 k n) = k"
  by (induction k) auto

lemma colon_not_in_Encoding: "CHR '':'' \<notin> set Encoding"
  by (simp add: Encoding_def)

lemma colon_not_in_MarshalText: "CHR '':'' \<notin> set (MarshalText u)"
  using enc32_subset colon_not_in_Encoding by (auto simp: MarshalText_def)

lemma length_MarshalText: "length (MarshalText u) = 26"
  by (simp add: MarshalText_def)

lemma key_prefix_cases:
  assumes "prefix (B @ '':'') (A @ '':'' @ txt)" and "CHR '':'' \<notin> set txt"
  shows "A = B \<or> prefix (B @ '':'') A"
proof -
  from assms(1) consider "prefix (B @ '':'') A"
    | us where "B @ '':'' = A @ us" "prefix us ('':'' @ txt)"
    by (auto simp: prefix_append)
  then show ?thesis
  proof cases
    case 1 then show ?thesis by simp
  next
    case 2
    show ?thesis
    proof (cases us)
      case Nil
      with 2 show ?thesis by simp
    next
      case (Cons c us')
      with 2 have c: "c = CHR '':''" and pre: "prefix us' txt" by auto
      show ?thesis
      proof (cases "us' = []")
        case True
        with 2 Cons c show ?thesis by simp
      next
        case False
        then have "last us' \<in> set us'" by simp
        with pre have "last us' \<in> set txt" by (auto simp: prefix_def)
        moreover from 2 Cons False have "last (B @ '':'') = last us'" by simp
        ultimately show ?thesis using assms(2) by simp
      qed
    qed
  qed
qed

section \<open>Properties of the loops and of the lazy handle\<close>

lemma Read_loop_registries:
  "typeRegistery (store p) = typeRegistery (store q) \<Longrightarrow> gobRegistry p = gobRegistry q \<Longrightarrow>
   Read_loop p pre t vs = Read_loop q pre t vs"
  by (induction p pre t vs rule: Read_loop.induct)
     (auto simp: item_Value_def makeInstance_def split: outcome.splits sum.splits option.splits)

lemma Read_loop_takeWhile:
  "Read_loop p pre t vs = Read_loop p pre (takeWhile (has_prefix pre) t) vs"
  by (induction p pre t vs rule: Read_loop.induct)
     (auto simp: ValidForPrefix_def split: outcome.splits)

lemma ListKeys_loop_eq: "ListKeys_loop t ks = ks @ map fst t"
  by (induction t ks rule: ListKeys_loop.induct) auto

lemma ListKeysForAggregate_loop_eq:
  "ListKeysForAggregate_loop pre t ks = ks @ map fst (takeWhile (has_prefix pre) t)"
  by (induction pre t ks rule: ListKeysForAggregate_loop.induct) (auto simp: ValidForPrefix_def)

lemma kvstore_Inl: "kvstore p = (Inl e, p') \<Longrightarrow> p' = p"
  by (auto simp: kvstore_def Let_def split: option.splits sum.splits)

lemma kvstore_Inr:
  assumes "kvstore p = (Inr h, p')"
  shows "p' = p\<lparr>store := (store p)\<lparr>db := Some h\<rparr>\<rparr>"
  using assms by (cases p; cases "store p") (auto simp: kvstore_def Let_def split: option.splits sum.splits)

lemma kvstore_sorted:
  "engine_ok p \<Longrightarrow> kvstore p = (Inr h, p') \<Longrightarrow> sorted_keys (items h)"
  by (auto simp: kvstore_def Let_def engine_ok_def badger_Open_def sorted_keys_def
           split: option.splits sum.splits if_splits)

lemma kvstore_again: "kvstore p = (Inr h, p') \<Longrightarrow> kvstore p' = (Inr h, p')"
  by (frule kvstore_Inr) (simp add: kvstore_def)

section \<open>Properties of \<open>NewId\<close> and \<open>Append\<close>\<close>

lemma div_split: "a \<noteq> 0 \<Longrightarrow> (t::int) div (a * b) * b + t mod (a * b) div a = t div a"
proof -
  assume a: "a \<noteq> 0"
  have "t div a = (a * (b * (t div (a * b))) + t mod (a * b)) div a"
    by (simp add: mult.assoc[symmetric])
  also have "\<dots> = b * (t div (a * b)) + t mod (a * b) div a"
    using a by (rule div_mult_self4)
  finally show ?thesis by (simp add: mult.commute)
qed

lemma ms_split: "(t::int) div 1000000000 * 1000 + t mod 1000000000 div 1000000 = t div 1000000"
  using div_split[of 1000000 t 1000] by simp

lemma ulid_Timestamp_eq: "ulid_Timestamp t = word_of_int (t div 1000000)"
proof -
  have "(word_of_int (t div 1000000000) * 1000 + word_of_int (t mod 1000000000 div 1000000) :: 64 word)
      = word_of_int (t div 1000000000 * 1000 + t mod 1000000000 div 1000000)"
    by simp
  then show ?thesis
    unfolding ulid_Timestamp_def Unix_def Nanosecond_def ms_split .
qed

lemma ulid_Timestamp_fits:
  assumes "0 \<le> t" and "t < year10000"
  shows "\<not> maxTime < ulid_Timestamp t"
proof -
  let ?m = "t div 1000000"
  from assms(1) have m0: "0 \<le> ?m" by (simp add: pos_imp_zdiv_nonneg_iff)
  from assms(2) have "t < 253402300800000 * 1000000" by (simp add: year10000_def)
  then have m1: "?m < 253402300800000" by (simp add: div_less_iff_less_mult del: mult_numeral_left_semiring_numeral)
  note m = m0 m1
  then have "uint (word_of_int ?m :: 64 word) = ?m"
    by (simp add: uint_word_of_int_eq take_bit_int_eq_self)
  moreover have "uint maxTime = 281474976710655" by (simp add: maxTime_def)
  ultimately show ?thesis using m by (simp add: word_less_def ulid_Timestamp_eq)
qed

lemma NewId_in_range:
  "0 \<le> t \<Longrightarrow> t < year10000 \<Longrightarrow> NewId rnd t = Ok (id_at rnd t)"
  using ulid_Timestamp_fits[of t] by (simp add: NewId_def ulid_MustNew_def id_at_def)

lemma Append_ok:
  assumes "TypeOf v \<in> gobRegistry p" and "0 \<le> now" and "now < year10000"
    and "fault p = None" and "kvstore p = (Inr h, p')"
  shows "Append rnd now A v p =
    (Ok (), p'\<lparr>store := (store p')\<lparr>db := Some (h\<lparr>items :=
                kv_Set (key_at rnd now A) (JsonRecord (record_at rnd now v)) (items h)\<rparr>)\<rparr>,
              disk := (if inMemory h then disk p'
                else kv_Set (key_at rnd now A) (JsonRecord (record_at rnd now v)) (items h))\<rparr>)"
proof -
  from assms(5) have p': "p' = p\<lparr>store := (store p)\<lparr>db := Some h\<rparr>\<rparr>" by (rule kvstore_Inr)
  have "json_Marshal (record_at rnd now v) = Inr (JsonRecord (record_at rnd now v))"
    using assms(2,3) by (simp add: json_Marshal_def record_at_def year0_def)
  then show ?thesis
    using assms NewId_in_range[OF assms(2,3), of rnd] p'
    by (simp add: Append_def gob_Encode_def Let_def db_Update_def record_at_def key_at_def)
qed

section \<open>Isolation between aggregates\<close>

lemma Read_eq:
  assumes "kvstore p = (Inr h, p')" and "sorted_keys (items h)"
  shows "Read A p = (Read_loop p' (A @ '':'') (filter (has_prefix (A @ '':'')) (items h)) [], p')"
  using assms Read_loop_takeWhile[of p' "A @ '':''" "Seek (A @ '':'') (items h)" "[]"]
  by (simp add: Read_def Seek_filter Let_def)

lemma Read_after_kvstore: "kvstore p = (Inr h, p') \<Longrightarrow> Read A p' = Read A p"
  by (frule kvstore_again) (simp add: Read_def)

lemma key_at_foreign:
  assumes "A \<noteq> B" and "\<not> prefix (B @ '':'') A"
  shows "\<not> prefix (B @ '':'') (key_at rnd now A)"
  using key_prefix_cases[of B A "MarshalText (id_at rnd now)"] assms colon_not_in_MarshalText
  by (auto simp: key_at_def)

lemma Append_cases:
  assumes "Append rnd now A v p = (r, q)"
  shows "q = p \<or> (\<exists>h. kvstore p = (Inr h, q)) \<or>
     (\<exists>h p' val. kvstore p = (Inr h, p') \<and> NewId rnd now = Ok (id_at rnd now) \<and>
        q = p'\<lparr>store := (store p')\<lparr>db := Some (h\<lparr>items := kv_Set (key_at rnd now A) val (items h)\<rparr>)\<rparr>,
              disk := (if inMemory h then disk p'
                else kv_Set (key_at rnd now A) val (items h))\<rparr>)"
proof -
  have id: "NewId rnd now = Ok u \<Longrightarrow> u = id_at rnd now" for u
    by (auto simp: NewId_def ulid_MustNew_def id_at_def split: if_splits)
  show ?thesis
    using assms
    apply (simp add: Append_def Let_def split: outcome.splits sum.splits prod.splits option.splits)
    apply (auto dest: kvstore_Inl dest!: id simp: db_Update_def key_at_def Let_def split: option.splits)
    done
qed

text \<open>
  C5 (amended). Appending to an aggregate A leaves the result of reading another
  aggregate B unchanged, provided A does not begin with B followed by the separator.
\<close>

theorem Append_other_aggregate_Read:
  assumes "engine_ok p" and "A \<noteq> B" and "\<not> prefix (B @ '':'') A"
  shows "fst (Read B (snd (Append rnd now A v p))) = fst (Read B p)"
proof -
  obtain r q where app: "Append rnd now A v p = (r, q)" by (cases "Append rnd now A v p")
  from Append_cases[OF app] consider "q = p" | h where "kvstore p = (Inr h, q)"
    | h p' val where "kvstore p = (Inr h, p')"
        "q = p'\<lparr>store := (store p')\<lparr>db := Some (h\<lparr>items := kv_Set (key_at rnd now A) val (items h)\<rparr>)\<rparr>,
              disk := (if inMemory h then disk p'
                else kv_Set (key_at rnd now A) val (items h))\<rparr>"
    by blast
  then have "fst (Read B q) = fst (Read B p)"
  proof cases
    case 1 then show ?thesis by simp
  next
    case 2 then show ?thesis by (simp add: Read_after_kvstore)
  next
    case 3
    let ?t = "kv_Set (key_at rnd now A) val (items h)"
    let ?h = "h\<lparr>items := ?t\<rparr>"
    have sh: "sorted_keys (items h)" using assms(1) 3(1) by (rule kvstore_sorted)
    then have st: "sorted_keys (items ?h)" by (simp add: sorted_keys_kv_Set)
    have kq: "kvstore q = (Inr ?h, q)" by (simp add: 3(2) kvstore_def)
    have "fst (Read B q) = Read_loop q (B @ '':'') (filter (has_prefix (B @ '':'')) ?t) []"
      using Read_eq[OF kq st] by simp
    also have "\<dots> = Read_loop q (B @ '':'') (filter (has_prefix (B @ '':'')) (items h)) []"
      using key_at_foreign[OF assms(2,3)] by (simp add: filter_kv_Set_other)
    also have "\<dots> = Read_loop p' (B @ '':'') (filter (has_prefix (B @ '':'')) (items h)) []"
      by (rule Read_loop_registries) (simp_all add: 3(2))
    also have "\<dots> = fst (Read B p)"
      using Read_eq[OF 3(1) sh] by simp
    finally show ?thesis .
  qed
  with app show ?thesis by simp
qed

section \<open>Evaluating concrete runs\<close>

lemmas scenario_defs = start_def MemoryStore_def gob_basics_def Append_def NewId_def ulid_MustNew_def
  ulid_Timestamp_def Unix_def Nanosecond_def UnixNano_def maxTime_def gob_Encode_def json_Marshal_def
  year0_def year10000_def kvstore_def DefaultOptions_def badger_Open_def db_Update_def typeName_def
  Register_def gob_Register_def makeInstance_def item_Value_def Read_def Seek_def ValidForPrefix_def
  ListKeys_def ListKeysForAggregate_def Close_def badger_Close_def Test_def Let_def engine_ok_def
  sorted_keys_def registered_def

text \<open>
  The theorem at the aggregates \<open>order\<close> and \<open>order-2\<close>: after an append to
  \<open>order-2\<close>, an append to \<open>order\<close> leaves the read of \<open>order-2\<close> as it was.
\<close>

theorem Append_other_aggregate_Read_witness:
  "engine_ok (snd (Append (\<lambda>s. 0) 1609459200000000000 ''order-2'' (Test 1)
       (Register (Test 0) (start MemoryStore [])))) \<and>
   ''order'' \<noteq> ''order-2'' \<and> \<not> prefix (''order-2'' @ '':'') ''order'' \<and>
   fst (Read ''order-2'' (snd (Append (\<lambda>s. 0) 1609459200000000001 ''order'' (Test 2)
       (snd (Append (\<lambda>s. 0) 1609459200000000000 ''order-2'' (Test 1)
          (Register (Test 0) (start MemoryStore []))))))) = Ok [Test 1]"
proof -
  let ?p = "snd (Append (\<lambda>s. 0) 1609459200000000000 ''order-2'' (Test 1)
       (Register (Test 0) (start MemoryStore [])))"
  have ok: "engine_ok ?p" by (simp add: scenario_defs)
  have ne: "''order'' \<noteq> ''order-2''" by simp
  have np: "\<not> prefix (''order-2'' @ '':'') ''order''" by simp
  have rd: "fst (Read ''order-2'' ?p) = Ok [Test 1]" by (simp add: scenario_defs)
  from Append_other_aggregate_Read[OF ok ne np, of "\<lambda>s. 0" 1609459200000000001 "Test 2"] rd ok
  show ?thesis by simp
qed

text \<open>
  C5 as stated fails: the aggregate \<open>x:y\<close> is distinct from \<open>x\<close>, and an append to it
  changes what reading \<open>x\<close> returns.
\<close>

theorem prefix_collision_counterexample:
  "''x:y'' \<noteq> ''x'' \<and>
   fst (Read ''x'' (snd (Append (\<lambda>s. 0) 1609459200000000000 ''x:y'' (GoInt 7)
       (Register (GoInt 0) (start MemoryStore []))))) \<noteq>
   fst (Read ''x'' (Register (GoInt 0) (start MemoryStore []))) \<and>
   fst (Read ''x'' (Register (GoInt 0) (start MemoryStore []))) = Ok [] \<and>
   fst (Read ''x'' (snd (Append (\<lambda>s. 0) 1609459200000000000 ''x:y'' (GoInt 7)
       (Register (GoInt 0) (start MemoryStore []))))) = Ok [GoInt 7]"
  by (simp add: scenario_defs)

section \<open>Closing and reopening\<close>

text \<open>
  C9. After a \<open>Close\<close> that returned without error, another \<open>Close\<close> returns without
  error and leaves the store as it is.
\<close>

theorem Close_idempotent:
  "fst (Close p) = Ok () \<Longrightarrow> Close (snd (Close p)) = (Ok (), snd (Close p))"
  by (auto simp: Close_def split: option.splits)

text \<open>
  The theorem at a store whose handle is open, here opened by a first \<open>ListKeys\<close>.
\<close>

theorem Close_idempotent_witness:
  "fst (Close (snd (ListKeys (start MemoryStore [])))) = Ok () \<and>
   fst (Close (snd (Close (snd (ListKeys (start MemoryStore [])))))) = Ok () \<and>
   db (store (snd (Close (snd (Close (snd (ListKeys (start MemoryStore []))))))))= None"
proof -
  have c: "fst (Close (snd (ListKeys (start MemoryStore [])))) = Ok ()"
    by (simp add: scenario_defs)
  have d: "db (store (snd (Close (snd (ListKeys (start MemoryStore [])))))) = None"
    by (simp add: scenario_defs)
  from Close_idempotent[OF c] c d show ?thesis by simp
qed





section \<open>Round trip\<close>


lemma ListKeysForAggregate_empty:
  assumes "engine_ok p" and "fst (ListKeysForAggregate A p) = Ok []"
  obtains h p' where "kvstore p = (Inr h, p')" and "sorted_keys (items h)"
    and "filter (has_prefix (A @ '':'')) (items h) = []"
proof -
  obtain r p' where k: "kvstore p = (r, p')" by (cases "kvstore p")
  with assms(2) obtain h where h: "r = Inr h"
    by (cases r) (auto simp: ListKeysForAggregate_def Let_def)
  from assms(1) k h have s: "sorted_keys (items h)" by (simp add: kvstore_sorted)
  from assms(2) k h have "takeWhile (has_prefix (A @ '':'')) (Seek (A @ '':'') (items h)) = []"
    by (simp add: ListKeysForAggregate_def Let_def ListKeysForAggregate_loop_eq)
  with s have "filter (has_prefix (A @ '':'')) (items h) = []" by (simp add: Seek_filter)
  with k h s that show ?thesis by blast
qed

lemma item_Value_record_at:
  "registered q (TypeOf v) \<Longrightarrow> item_Value q (JsonRecord (record_at rnd now v)) = Ok v"
  by (auto simp: item_Value_def record_at_def makeInstance_def registered_def typeName_def)



section \<open>Appends at one clock reading\<close>

text \<open>
  C2. Two values appended to one aggregate while the clock shows the same instant: both
  appends return no error, and \<open>Read\<close> returns only the second value.
\<close>

theorem Read_after_same_instant_appends:
  "fst (Append rnd 1609459200000000000 ''test.1'' (Test 1)
          (Register (Test 0) (start MemoryStore []))) = Ok () \<and>
   fst (Append rnd 1609459200000000000 ''test.1'' (Test 2)
          (snd (Append rnd 1609459200000000000 ''test.1'' (Test 1)
             (Register (Test 0) (start MemoryStore []))))) = Ok () \<and>
   fst (Read ''test.1''
          (snd (Append rnd 1609459200000000000 ''test.1'' (Test 2)
             (snd (Append rnd 1609459200000000000 ''test.1'' (Test 1)
                (Register (Test 0) (start MemoryStore []))))))) = Ok [Test 2]"
  by (simp add: scenario_defs)

text \<open>
  C4. Two appends to different aggregates at one clock reading: both records are stored,
  and they carry the same identifier.
\<close>

theorem stored_ids_same_instant:
  "fst (ListKeys
          (snd (Append rnd 1609459200000000000 ''test.2'' (Test 2)
             (snd (Append rnd 1609459200000000000 ''test.1'' (Test 1)
                (Register (Test 0) (start MemoryStore []))))))) =
     Ok [key_at rnd 1609459200000000000 ''test.1'', key_at rnd 1609459200000000000 ''test.2''] \<and>
   stored_ids
          (snd (Append rnd 1609459200000000000 ''test.2'' (Test 2)
             (snd (Append rnd 1609459200000000000 ''test.1'' (Test 1)
                (Register (Test 0) (start MemoryStore [])))))) =
     [id_at rnd 1609459200000000000, id_at rnd 1609459200000000000]"
  by (simp add: scenario_defs stored_ids_def record_ids_def key_at_def id_at_def)

text \<open>
  C8. Two appends to one aggregate at one clock reading both return no error, and
  \<open>ListKeys\<close> returns one key.
\<close>

theorem ListKeys_after_same_instant_appends:
  "fst (Append rnd 1609459200000000000 ''test.1'' (Test 1)
          (Register (Test 0) (start MemoryStore []))) = Ok () \<and>
   fst (Append rnd 1609459200000000000 ''test.1'' (Test 2)
          (snd (Append rnd 1609459200000000000 ''test.1'' (Test 1)
             (Register (Test 0) (start MemoryStore []))))) = Ok () \<and>
   fst (ListKeys
          (snd (Append rnd 1609459200000000000 ''test.1'' (Test 2)
             (snd (Append rnd 1609459200000000000 ''test.1'' (Test 1)
                (Register (Test 0) (start MemoryStore []))))))) =
     Ok [key_at rnd 1609459200000000000 ''test.1'']"
  by (simp add: scenario_defs key_at_def id_at_def)

section \<open>The text of an identifier sorts as the identifier\<close>

lemma Encoding_sorted: "sorted_wrt (<) Encoding"
  by (simp add: Encoding_def)

lemma Encoding_nth_less: "i < j \<Longrightarrow> j < 32 \<Longrightarrow> Encoding ! i < Encoding ! j"
  using Encoding_sorted by (simp add: sorted_wrt_iff_nth_less length_Encoding)

lemma digit_eq: "(m::nat) div 32 ^ k mod 32 = m mod 32 ^ Suc k div 32 ^ k"
proof -
  have "m mod (32 ^ k * 32) div 32 ^ k = m div 32 ^ k mod 32"
    by (simp add: mod_mult2_eq)
  then show ?thesis by (simp add: mult.commute)
qed

lemma low_eq: "(m::nat) mod 32 ^ k = m mod 32 ^ Suc k mod 32 ^ k"
  by (simp add: mod_mod_cancel)

lemma div_eq_mod_less:
  assumes "(a::nat) div c = b div c" and "a < b"
  shows "a mod c < b mod c"
proof -
  have "a = c * (a div c) + a mod c" "b = c * (b div c) + b mod c" by simp_all
  with assms show ?thesis by (metis nat_add_left_cancel_less)
qed

lemma enc32_mod: "enc32 k (m mod 32 ^ k) = enc32 k m"
proof (induction k arbitrary: m)
  case 0 show ?case by simp
next
  case (Suc k)
  have "enc32 k (m mod 32 ^ Suc k) = enc32 k m"
    using Suc.IH[of "m mod 32 ^ Suc k"] Suc.IH[of m] low_eq[of m k] by simp
  moreover have "(m mod 32 ^ Suc k) div 32 ^ k mod 32 = m div 32 ^ k mod 32"
    using digit_eq[of "m mod 32 ^ Suc k" k] digit_eq[of m k] by simp
  ultimately show ?case by simp
qed

lemma enc32_less: "m mod 32 ^ k < n mod 32 ^ k \<Longrightarrow> enc32 k m < enc32 k n"
proof (induction k arbitrary: m n)
  case 0 then show ?case by simp
next
  case (Suc k)
  let ?a = "m mod 32 ^ Suc k" and ?b = "n mod 32 ^ Suc k"
  have dm: "m div 32 ^ k mod 32 = ?a div 32 ^ k" and dn: "n div 32 ^ k mod 32 = ?b div 32 ^ k"
    by (rule digit_eq)+
  have le: "?a div 32 ^ k \<le> ?b div 32 ^ k" using Suc.prems by (simp add: div_le_mono)
  have bnd: "?b div 32 ^ k < 32"
    by (simp add: less_mult_imp_div_less mult.commute)
  show ?case
  proof (cases "?a div 32 ^ k = ?b div 32 ^ k")
    case True
    have "?a mod 32 ^ k < ?b mod 32 ^ k"
      using True Suc.prems by (rule div_eq_mod_less)
    then have "m mod 32 ^ k < n mod 32 ^ k" using low_eq[of m k] low_eq[of n k] by simp
    then have "enc32 k m < enc32 k n" by (rule Suc.IH)
    with True dm dn show ?thesis by simp
  next
    case False
    with le have "?a div 32 ^ k < ?b div 32 ^ k" by simp
    then have "Encoding ! (?a div 32 ^ k) < Encoding ! (?b div 32 ^ k)"
      using bnd by (rule Encoding_nth_less)
    with dm dn show ?thesis by simp
  qed
qed

lemma append_less_same_length:
  "length xs = length ys \<Longrightarrow>
   (xs @ u < ys @ v) = (xs < ys \<or> (xs = ys \<and> u < (v::string)))"
  by (induction xs ys rule: list_induct2) auto

lemma unat_time_bound: "unat (w :: 48 word) mod 32 ^ 10 = unat w"
proof -
  have "unat w < 2 ^ 48" using unsigned_less[of w] by simp
  then show ?thesis by simp
qed

lemma unat_entropy_bound: "unat (w :: 80 word) mod 32 ^ 16 = unat w"
proof -
  have "unat w < 2 ^ 80" using unsigned_less[of w] by simp
  then show ?thesis by simp
qed

lemma MarshalText_less_time:
  "ulid_time a < ulid_time b \<Longrightarrow> MarshalText a < MarshalText b"
proof -
  assume "ulid_time a < ulid_time b"
  then have "unat (ulid_time a) < unat (ulid_time b)" by (simp add: word_less_nat_alt)
  then have "enc32 10 (unat (ulid_time a)) < enc32 10 (unat (ulid_time b))"
    by (intro enc32_less) (simp only: unat_time_bound)
  then show ?thesis by (simp add: MarshalText_def append_less_same_length)
qed

lemma MarshalText_less_entropy:
  "ulid_time a = ulid_time b \<Longrightarrow> ulid_entropy a < ulid_entropy b \<Longrightarrow>
   MarshalText a < MarshalText b"
proof -
  assume t: "ulid_time a = ulid_time b" and "ulid_entropy a < ulid_entropy b"
  then have "unat (ulid_entropy a) < unat (ulid_entropy b)" by (simp add: word_less_nat_alt)
  then have "enc32 16 (unat (ulid_entropy a)) < enc32 16 (unat (ulid_entropy b))"
    by (intro enc32_less) (simp only: unat_entropy_bound)
  with t show ?thesis by (simp add: MarshalText_def append_less_same_length)
qed

section \<open>Order of the identifiers over time\<close>

lemma id_at_time: "ulid_time (id_at rnd t) = word_of_int (t div 1000000)"
  by (simp add: id_at_def ulid_Timestamp_eq ucast_down_wi is_down)

lemma id_at_entropy: "ulid_entropy (id_at rnd t) = rnd (UnixNano t)"
  by (simp add: id_at_def)

lemma ms_bound:
  assumes "t < year10000"
  shows "t div 1000000 < 253402300800000"
proof -
  from assms have "t < 253402300800000 * 1000000" by (simp add: year10000_def)
  then show ?thesis
    by (simp add: div_less_iff_less_mult del: mult_numeral_left_semiring_numeral)
qed

text \<open>Later millisecond, later identifier, whatever the random source yields.\<close>

lemma id_at_less_ms:
  assumes "0 \<le> t1" and "t1 div 1000000 < t2 div 1000000" and "t2 < year10000"
  shows "MarshalText (id_at rnd t1) < MarshalText (id_at rnd t2)"
proof -
  let ?a = "t1 div 1000000" and ?b = "t2 div 1000000"
  have a: "0 \<le> ?a" using assms(1) by (simp add: pos_imp_zdiv_nonneg_iff)
  have b: "?b < 2 ^ 48" using ms_bound[OF assms(3)] by simp
  from a b assms(2) have "?a mod 2 ^ 48 < ?b mod 2 ^ 48" by simp
  then have "(word_of_int ?a :: 48 word) < word_of_int ?b" by (simp add: wi_less)
  then show ?thesis by (intro MarshalText_less_time) (simp add: id_at_time)
qed

text \<open>
  Within one millisecond the order of two identifiers is the order of the entropy that
  the two reseeded sources yield.
\<close>

lemma id_at_less_same_ms:
  assumes "t1 div 1000000 = t2 div 1000000" and "rnd (UnixNano t2) < rnd (UnixNano t1)"
  shows "MarshalText (id_at rnd t2) < MarshalText (id_at rnd t1)"
  using assms by (intro MarshalText_less_entropy) (simp_all add: id_at_time id_at_entropy)

text \<open>
  C3. Two instants one nanosecond apart within a millisecond, and a random source whose
  first ten bytes are larger for the first seed than for the second: the later identifier
  sorts before the earlier one.
\<close>

theorem NewId_later_sorts_first:
  "(1609459200000000000::int) \<le> 1609459200000000001 \<and>
   NewId (\<lambda>s. if s = 1609459200000000000 then 1 else 0) 1609459200000000000 =
     Ok (ULID 1609459200000 1) \<and>
   NewId (\<lambda>s. if s = 1609459200000000000 then 1 else 0) 1609459200000000001 =
     Ok (ULID 1609459200000 0) \<and>
   MarshalText (ULID 1609459200000 0) < MarshalText (ULID 1609459200000 1)"
proof -
  have "MarshalText (ULID 1609459200000 0) < MarshalText (ULID 1609459200000 1)"
    by (rule MarshalText_less_entropy) simp_all
  then show ?thesis
    by (simp add: NewId_def ulid_MustNew_def ulid_Timestamp_def Unix_def Nanosecond_def
        UnixNano_def maxTime_def)
qed

section \<open>Unregistered types and records that do not decode\<close>

lemma Append_unregistered:
  "TypeOf v \<notin> gobRegistry p \<Longrightarrow> fst (Append rnd now A v p) \<noteq> Ok ()"
  by (auto simp: Append_def gob_Encode_def split: outcome.splits)

lemma Append_unregistered_Err:
  assumes "TypeOf v \<notin> gobRegistry p" and "0 \<le> now" and "now < year10000"
  shows "Append rnd now A v p = (Err (ErrGobTypeNotRegistered (TypeOf v)), p)"
  using assms NewId_in_range[OF assms(2,3), of rnd] by (simp add: Append_def gob_Encode_def)

text \<open>Every record the scan meets has been decoded when the loop returns a sequence.\<close>

lemma Read_loop_Ok_all:
  "Read_loop p pre t vs = Ok ws \<Longrightarrow> (k, val) \<in> set (takeWhile (has_prefix pre) t) \<Longrightarrow>
   \<exists>v. item_Value p val = Ok v"
  by (induction p pre t vs rule: Read_loop.induct)
     (auto simp: ValidForPrefix_def split: if_splits outcome.splits)

text \<open>The loop returns the error of the first record that fails with one.\<close>

lemma Read_loop_first_error:
  assumes "takeWhile (has_prefix pre) t = good @ (k, val) # rest"
    and "\<forall>e\<in>set good. \<exists>v. item_Value p (snd e) = Ok v"
    and "item_Value p val = Err err"
  shows "Read_loop p pre t vs = Err err"
  using assms
proof (induction good arbitrary: t vs)
  case Nil
  then obtain t' where "t = (k, val) # t'" and "prefix pre k"
    by (cases t) (auto split: if_splits)
  with Nil show ?case by (simp add: ValidForPrefix_def)
next
  case (Cons g good)
  obtain k' val' where g: "g = (k', val')" by (cases g)
  from Cons.prems(1) obtain t' where t: "t = g # t'" and pg: "prefix pre k'"
    and r: "takeWhile (has_prefix pre) t' = good @ (k, val) # rest"
    by (cases t) (auto simp: g split: if_splits)
  from Cons.prems(2) obtain v where v: "item_Value p val' = Ok v" by (auto simp: g)
  have "Read_loop p pre t' (vs @ [v]) = Err err"
    using r Cons.prems(2,3) by (intro Cons.IH) simp_all
  with t g pg v show ?case by (simp add: ValidForPrefix_def)
qed

text \<open>
  \<open>Read\<close> returns no sequence at all when a record of the aggregate does not decode.
\<close>

lemma Read_no_partial:
  assumes "engine_ok p" and "kvstore p = (Inr h, p')" and "(k, val) \<in> set (items h)"
    and "prefix (A @ '':'') k" and "\<forall>v. item_Value p' val \<noteq> Ok v"
  shows "fst (Read A p) \<noteq> Ok ws"
proof
  assume ok: "fst (Read A p) = Ok ws"
  have s: "sorted_keys (items h)" using assms(1,2) by (rule kvstore_sorted)
  have "(k, val) \<in> set (takeWhile (has_prefix (A @ '':'')) (Seek (A @ '':'') (items h)))"
    using assms(3,4) by (simp add: Seek_filter[OF s])
  moreover have "Read_loop p' (A @ '':'') (Seek (A @ '':'') (items h)) [] = Ok ws"
    using ok assms(2) by (simp add: Read_def Let_def)
  ultimately have "\<exists>v. item_Value p' val = Ok v" by (rule Read_loop_Ok_all[rotated])
  with assms(5) show False by simp
qed

text \<open>
  C6. On a new in-memory store a struct value whose type was never registered is refused
  by \<open>Append\<close> with an error. An \<open>int\<close>, which gob knows without registration, is
  appended without error, and reading the aggregate then panics. The same happens when a
  new process reads a directory written by an earlier one before it registers the type.
\<close>

theorem Read_unregistered_tag_panics:
  "fst (Append rnd 1609459200000000000 ''a'' (Test 1) (start MemoryStore [])) =
     Err (ErrGobTypeNotRegistered ''eventstore.Test'') \<and>
   fst (Append rnd 1609459200000000000 ''a'' (GoInt 42) (start MemoryStore [])) = Ok () \<and>
   fst (Read ''a'' (snd (Append rnd 1609459200000000000 ''a'' (GoInt 42)
       (start MemoryStore [])))) = Panic PanicReflectNewNil \<and>
   fst (Read ''test.1'' (start (FileStore ''data'' None 0)
       [(key_at rnd 1609459200000000000 ''test.1'',
         JsonRecord (record_at rnd 1609459200000000000 (Test 1)))])) = Panic PanicReflectNewNil"
  by (simp add: scenario_defs FileStore_def key_at_def record_at_def)

text \<open>
  C7. An aggregate holds a record of the registered type \<open>Test\<close> followed by a record
  whose type has no entry in the store's registry. \<open>Read\<close> does not return an error: it
  panics.
\<close>

theorem Read_type_resolution_panics:
  "engine_ok (Register (Test 0) (start (FileStore ''data'' None 0)
       [(key_at rnd 1609459200000000000 ''test.1'',
         JsonRecord (record_at rnd 1609459200000000000 (Test 1))),
        (key_at rnd 1609459200001000000 ''test.1'',
         JsonRecord (record_at rnd 1609459200001000000 (GoString ''x'')))])) \<and>
   fst (Read ''test.1'' (Register (Test 0) (start (FileStore ''data'' None 0)
       [(key_at rnd 1609459200000000000 ''test.1'',
         JsonRecord (record_at rnd 1609459200000000000 (Test 1))),
        (key_at rnd 1609459200001000000 ''test.1'',
         JsonRecord (record_at rnd 1609459200001000000 (GoString ''x'')))]))) =
     Panic PanicReflectNewNil"
proof -
  have "MarshalText (id_at rnd 1609459200000000000) < MarshalText (id_at rnd 1609459200001000000)"
    by (rule id_at_less_ms) (simp_all add: year10000_def)
  then have "key_at rnd 1609459200000000000 ''test.1'' < key_at rnd 1609459200001000000 ''test.1''"
    by (simp add: key_at_def)
  then show ?thesis
    by (simp add: scenario_defs FileStore_def record_at_def)
       (simp add: key_at_def)
qed

section \<open>Key listings\<close>

text \<open>On a key-sorted engine the aggregate's listing is the full listing filtered by prefix.\<close>

lemma ListKeysForAggregate_filter:
  assumes "engine_ok p" and "fst (ListKeys p) = Ok ks"
  shows "fst (ListKeysForAggregate A p) = Ok (filter (prefix (A @ '':'')) ks)"
proof -
  obtain r p' where k: "kvstore p = (r, p')" by (cases "kvstore p")
  with assms(2) obtain h where h: "r = Inr h" by (cases r) (auto simp: ListKeys_def)
  from assms(1) k h have s: "sorted_keys (items h)" by (simp add: kvstore_sorted)
  from assms(2) k h have ks: "ks = map fst (items h)" by (simp add: ListKeys_def ListKeys_loop_eq)
  have "map fst (filter (has_prefix (A @ '':'')) (items h)) = filter (prefix (A @ '':'')) (map fst (items h))"
    by (induction "items h") (auto simp: filter_map comp_def has_prefix_def)
  with k h s ks show ?thesis
    by (simp add: ListKeysForAggregate_def Let_def ListKeysForAggregate_loop_eq Seek_filter)
qed

lemma ListKeys_error:
  "fst (ListKeys p) = Err e \<Longrightarrow> fst (ListKeysForAggregate A p) = Err e"
  by (auto simp: ListKeys_def ListKeysForAggregate_def Let_def split: prod.splits sum.splits)

section \<open>What the operations keep\<close>

lemma engine_ok_start: "engine_ok (start MemoryStore [])"
  by (simp add: engine_ok_def start_def MemoryStore_def sorted_keys_def)

lemma engine_ok_start_FileStore:
  "sorted_keys files \<Longrightarrow> engine_ok (start (FileStore path key rot) files)"
  by (simp add: engine_ok_def start_def FileStore_def)

lemma engine_ok_Register: "engine_ok p \<Longrightarrow> engine_ok (Register t p)"
  by (simp add: engine_ok_def Register_def Let_def)

lemma engine_ok_kvstore: "engine_ok p \<Longrightarrow> engine_ok (snd (kvstore p))"
proof -
  assume ok: "engine_ok p"
  obtain r p' where k: "kvstore p = (r, p')" by (cases "kvstore p")
  show ?thesis
  proof (cases r)
    case (Inl e)
    with k ok show ?thesis by (auto dest: kvstore_Inl)
  next
    case (Inr h)
    with k ok have "sorted_keys (items h)" by (simp add: kvstore_sorted)
    moreover from k Inr have "p' = p\<lparr>store := (store p)\<lparr>db := Some h\<rparr>\<rparr>" by (simp add: kvstore_Inr)
    ultimately show ?thesis using ok k by (simp add: engine_ok_def)
  qed
qed

lemma engine_ok_Append: "engine_ok p \<Longrightarrow> engine_ok (snd (Append rnd now A v p))"
proof -
  assume ok: "engine_ok p"
  obtain r q where app: "Append rnd now A v p = (r, q)" by (cases "Append rnd now A v p")
  from Append_cases[OF app] consider "q = p" | h where "kvstore p = (Inr h, q)"
    | h p' val where "kvstore p = (Inr h, p')"
        "q = p'\<lparr>store := (store p')\<lparr>db := Some (h\<lparr>items := kv_Set (key_at rnd now A) val (items h)\<rparr>)\<rparr>,
              disk := (if inMemory h then disk p'
                else kv_Set (key_at rnd now A) val (items h))\<rparr>"
    by blast
  then have "engine_ok q"
  proof cases
    case 1 with ok show ?thesis by simp
  next
    case 2
    with engine_ok_kvstore[OF ok] show ?thesis by simp
  next
    case 3
    from ok 3(1) have s: "sorted_keys (items h)" by (rule kvstore_sorted)
    from engine_ok_kvstore[OF ok] 3(1) have "engine_ok p'" by simp
    with s show ?thesis by (simp add: 3(2) engine_ok_def sorted_keys_kv_Set)
  qed
  with app show ?thesis by simp
qed

lemma engine_ok_Read: "engine_ok p \<Longrightarrow> engine_ok (snd (Read A p))"
  using engine_ok_kvstore[of p]
  by (auto simp: Read_def Let_def split: prod.splits sum.splits)

lemma engine_ok_ListKeys: "engine_ok p \<Longrightarrow> engine_ok (snd (ListKeys p))"
  using engine_ok_kvstore[of p]
  by (auto simp: ListKeys_def split: prod.splits sum.splits)

lemma engine_ok_ListKeysForAggregate:
  "engine_ok p \<Longrightarrow> engine_ok (snd (ListKeysForAggregate A p))"
  using engine_ok_kvstore[of p]
  by (auto simp: ListKeysForAggregate_def Let_def split: prod.splits sum.splits)

lemma engine_ok_Close: "engine_ok p \<Longrightarrow> engine_ok (snd (Close p))"
  by (auto simp: Close_def engine_ok_def split: option.splits)

lemma Append_registries:
  "gobRegistry (snd (Append rnd now A v p)) = gobRegistry p \<and>
   typeRegistery (store (snd (Append rnd now A v p))) = typeRegistery (store p) \<and>
   fault (snd (Append rnd now A v p)) = fault p"
proof -
  obtain r q where app: "Append rnd now A v p = (r, q)" by (cases "Append rnd now A v p")
  from Append_cases[OF app] consider "q = p" | h where "kvstore p = (Inr h, q)"
    | h p' val where "kvstore p = (Inr h, p')"
        "q = p'\<lparr>store := (store p')\<lparr>db := Some (h\<lparr>items := kv_Set (key_at rnd now A) val (items h)\<rparr>)\<rparr>,
              disk := (if inMemory h then disk p'
                else kv_Set (key_at rnd now A) val (items h))\<rparr>"
    by blast
  then have "gobRegistry q = gobRegistry p \<and> typeRegistery (store q) = typeRegistery (store p)
     \<and> fault q = fault p"
  proof cases
    case 1 then show ?thesis by simp
  next
    case 2 then show ?thesis by (auto dest: kvstore_Inr)
  next
    case 3 then show ?thesis by (auto dest: kvstore_Inr)
  qed
  with app show ?thesis by simp
qed

lemma registered_Append: "registered p T \<Longrightarrow> registered (snd (Append rnd now A v p)) T"
  using Append_registries[of rnd now A v p] by (simp add: registered_def)

lemma registered_Register: "registered p T \<Longrightarrow> registered (Register t p) T"
  by (auto simp: registered_def Register_def gob_Register_def Let_def)

lemma registered_Close: "registered p T \<Longrightarrow> registered (snd (Close p)) T"
  by (auto simp: registered_def Close_def split: option.splits)

section \<open>Appends while the clock advances\<close>

lemma filter_kv_Set_last:
  assumes "sorted_keys t" and "prefix pre k"
    and "\<forall>e\<in>set t. has_prefix pre e \<longrightarrow> fst e < k"
  shows "filter (has_prefix pre) (kv_Set k v t) = filter (has_prefix pre) t @ [(k, v)]"
  using assms
proof (induction t)
  case Nil then show ?case by simp
next
  case (Cons e t)
  obtain k' v' where e: "e = (k', v')" by (cases e)
  from Cons.prems(1) have st: "sorted_keys t" and lt: "\<forall>x\<in>set t. k' < fst x"
    by (auto simp: sorted_keys_def e)
  consider "k < k'" | "k = k'" | "k' < k" by (rule linorder_cases)
  then show ?case
  proof cases
    case 1
    have "\<not> has_prefix pre x" if "x \<in> set (e # t)" for x
    proof
      assume "has_prefix pre x"
      with that Cons.prems(3) have "fst x < k" by auto
      moreover from that lt e have "k' \<le> fst x" by auto
      ultimately show False using 1 by simp
    qed
    then have "filter (has_prefix pre) (e # t) = []" by (simp add: filter_empty_conv)
    with 1 Cons.prems(2) show ?thesis by (simp add: e)
  next
    case 2
    with Cons.prems(2,3) show ?thesis by (simp add: e)
  next
    case 3
    have "filter (has_prefix pre) (kv_Set k v t) = filter (has_prefix pre) t @ [(k, v)]"
      using st Cons.prems(2,3) by (intro Cons.IH) simp_all
    moreover from 3 have "\<not> k < k'" "k \<noteq> k'" by auto
    ultimately show ?thesis by (simp add: e)
  qed
qed

lemma Read_loop_entries:
  "\<forall>e\<in>set L. registered q (TypeOf (snd e)) \<Longrightarrow>
   Read_loop q (A @ '':'') (map (entry_at rnd A) L) vs = Ok (vs @ map snd L)"
proof (induction L arbitrary: vs)
  case Nil then show ?case by simp
next
  case (Cons e L)
  have "item_Value q (JsonRecord (record_at rnd (fst e) (snd e))) = Ok (snd e)"
    using Cons.prems by (intro item_Value_record_at) simp
  with Cons show ?case by (simp add: entry_at_def ValidForPrefix_def key_at_def)
qed

lemma key_at_less:
  "0 \<le> t1 \<Longrightarrow> t1 div 1000000 < t2 div 1000000 \<Longrightarrow> t2 < year10000 \<Longrightarrow>
   key_at rnd t1 A < key_at rnd t2 A"
  using id_at_less_ms[of t1 t2 rnd]
  by (simp add: key_at_def append_less_same_length[of A A, simplified])


lemma engine_ok_Appends: "engine_ok p \<Longrightarrow> engine_ok (Appends rnd es p)"
  by (induction rnd es p rule: Appends.induct) (simp_all add: engine_ok_Append)

lemma registered_Appends: "registered p T \<Longrightarrow> registered (Appends rnd es p) T"
  by (induction rnd es p rule: Appends.induct) (simp_all add: registered_Append)

lemma Appends_scan:
  assumes "engine_ok p" and "fault p = None" and "kvstore p = (Inr h, p')"
    and "filter (has_prefix (A @ '':'')) (items h) = map (entry_at rnd A) done"
    and "\<forall>d\<in>set done. 0 \<le> fst d \<and> (\<forall>e\<in>set es. fst d div 1000000 < fst e div 1000000)"
    and "sorted_wrt (\<lambda>a b. fst a div 1000000 < fst b div 1000000) es"
    and "\<forall>e\<in>set es. 0 \<le> fst e \<and> fst e < year10000 \<and> TypeOf (snd (snd e)) \<in> gobRegistry p \<and>
           (fst (snd e) \<noteq> A \<longrightarrow> \<not> prefix (A @ '':'') (fst (snd e)))"
  shows "\<exists>h' q. kvstore (Appends rnd es p) = (Inr h', q) \<and>
      filter (has_prefix (A @ '':'')) (items h') =
        map (entry_at rnd A)
          (done @ map (\<lambda>e. (fst e, snd (snd e))) (filter (\<lambda>e. fst (snd e) = A) es))"
  using assms
proof (induction es arbitrary: p h p' "done")
  case Nil
  then show ?case by simp
next
  case (Cons e es)
  obtain t B v where e: "e = (t, B, v)" by (cases e)
  let ?pre = "A @ '':''"
  let ?key = "key_at rnd t B"
  let ?val = "JsonRecord (record_at rnd t v)"
  let ?h = "h\<lparr>items := kv_Set ?key ?val (items h)\<rparr>"
  let ?q = "p'\<lparr>store := (store p')\<lparr>db := Some ?h\<rparr>,
      disk := (if inMemory h then disk p' else kv_Set ?key ?val (items h))\<rparr>"
  from Cons.prems(7) have t: "0 \<le> t" "t < year10000" and g: "TypeOf v \<in> gobRegistry p"
    and fo: "B \<noteq> A \<Longrightarrow> \<not> prefix ?pre B"
    by (auto simp: e)
  have app: "Append rnd t B v p = (Ok (), ?q)"
    using Append_ok[OF g t Cons.prems(2,3)] .
  have p': "p' = p\<lparr>store := (store p)\<lparr>db := Some h\<rparr>\<rparr>" using Cons.prems(3) by (rule kvstore_Inr)
  have okq: "engine_ok ?q" using engine_ok_Append[OF Cons.prems(1), of rnd t B v] app by simp
  have fq: "fault ?q = None" using Cons.prems(2) by (simp add: p')
  have kq: "kvstore ?q = (Inr ?h, ?q)" by (simp add: kvstore_def)
  have sh: "sorted_keys (items h)" using Cons.prems(1,3) by (rule kvstore_sorted)
  let ?done = "if B = A then done @ [(t, v)] else done"
  have scan: "filter (has_prefix ?pre) (items ?h) = map (entry_at rnd A) ?done"
  proof (cases "B = A")
    case True
    have "fst x < key_at rnd t A" if "x \<in> set (items h)" "has_prefix ?pre x" for x
    proof -
      from that have "x \<in> set (filter (has_prefix ?pre) (items h))" by simp
      with Cons.prems(4) obtain d where d: "d \<in> set done" "x = entry_at rnd A d" by auto
      with Cons.prems(5) have "0 \<le> fst d" "fst d div 1000000 < t div 1000000" by (auto simp: e)
      then have "key_at rnd (fst d) A < key_at rnd t A" using t(2) by (rule key_at_less)
      with d show ?thesis by (simp add: entry_at_def)
    qed
    then have "filter (has_prefix ?pre) (kv_Set (key_at rnd t A) ?val (items h)) =
        filter (has_prefix ?pre) (items h) @ [(key_at rnd t A, ?val)]"
      using sh by (intro filter_kv_Set_last) (auto simp: key_at_def)
    with True Cons.prems(4) show ?thesis by (simp add: entry_at_def)
  next
    case False
    then have "\<not> prefix ?pre ?key" using fo by (intro key_at_foreign) auto
    then have "filter (has_prefix ?pre) (kv_Set ?key ?val (items h)) = filter (has_prefix ?pre) (items h)"
      by (rule filter_kv_Set_other)
    with False Cons.prems(4) show ?thesis by simp
  qed
  have older: "\<forall>d\<in>set ?done. 0 \<le> fst d \<and> (\<forall>e\<in>set es. fst d div 1000000 < fst e div 1000000)"
    using Cons.prems(5,6) t(1) by (auto simp: e)
  have srt: "sorted_wrt (\<lambda>a b. fst a div 1000000 < fst b div 1000000) es"
    using Cons.prems(6) by simp
  have rest: "\<forall>e\<in>set es. 0 \<le> fst e \<and> fst e < year10000 \<and> TypeOf (snd (snd e)) \<in> gobRegistry ?q \<and>
           (fst (snd e) \<noteq> A \<longrightarrow> \<not> prefix ?pre (fst (snd e)))"
    using Cons.prems(7) by (simp add: p')
  have step: "Appends rnd (e # es) p = Appends rnd es ?q" using app by (simp add: e)
  have split: "done @ map (\<lambda>e. (fst e, snd (snd e))) (filter (\<lambda>e. fst (snd e) = A) (e # es)) =
      ?done @ map (\<lambda>e. (fst e, snd (snd e))) (filter (\<lambda>e. fst (snd e) = A) es)"
    by (simp add: e)
  from Cons.IH[OF okq fq kq scan older srt rest]
  show ?case unfolding step split .
qed

text \<open>
  When every append sees a later millisecond than the one before it, \<open>Read\<close> returns the
  values appended to the aggregate, in the order of the appends, whatever was appended
  to other aggregates in between.
\<close>

lemma Read_Appends_in_order:
  assumes "engine_ok p" and "fault p = None" and "fst (ListKeysForAggregate A p) = Ok []"
    and "sorted_wrt (\<lambda>a b. fst a div 1000000 < fst b div 1000000) es"
    and "\<forall>e\<in>set es. 0 \<le> fst e \<and> fst e < year10000 \<and> registered p (TypeOf (snd (snd e))) \<and>
           (fst (snd e) \<noteq> A \<longrightarrow> \<not> prefix (A @ '':'') (fst (snd e)))"
  shows "fst (Read A (Appends rnd es p)) =
    Ok (map (\<lambda>e. snd (snd e)) (filter (\<lambda>e. fst (snd e) = A) es))"
proof -
  let ?pre = "A @ '':''"
  let ?L = "map (\<lambda>e. (fst e, snd (snd e))) (filter (\<lambda>e. fst (snd e) = A) es)"
  from assms(1,3) obtain h p' where k: "kvstore p = (Inr h, p')"
    and e: "filter (has_prefix ?pre) (items h) = []"
    by (rule ListKeysForAggregate_empty)
  have rest: "\<forall>e\<in>set es. 0 \<le> fst e \<and> fst e < year10000 \<and> TypeOf (snd (snd e)) \<in> gobRegistry p \<and>
           (fst (snd e) \<noteq> A \<longrightarrow> \<not> prefix ?pre (fst (snd e)))"
    using assms(5) by (auto simp: registered_def)
  from Appends_scan[OF assms(1,2) k, of A rnd "[]" es] e assms(4) rest
  obtain h' q where kq: "kvstore (Appends rnd es p) = (Inr h', q)"
    and scan: "filter (has_prefix ?pre) (items h') = map (entry_at rnd A) ?L"
    by auto
  have sq: "sorted_keys (items h')" using engine_ok_Appends[OF assms(1)] kq by (rule kvstore_sorted)
  have reg: "\<forall>e\<in>set ?L. registered q (TypeOf (snd e))"
  proof
    fix x assume "x \<in> set ?L"
    then obtain y where "y \<in> set es" "snd x = snd (snd y)" by auto
    with assms(5) have "registered p (TypeOf (snd x))" by auto
    then have "registered (Appends rnd es p) (TypeOf (snd x))" by (rule registered_Appends)
    then show "registered q (TypeOf (snd x))"
      using kvstore_Inr[OF kq] by (simp add: registered_def)
  qed
  have "fst (Read A (Appends rnd es p)) = Read_loop q ?pre (map (entry_at rnd A) ?L) []"
    using Read_eq[OF kq sq] scan by simp
  also have "\<dots> = Ok (map snd ?L)" using Read_loop_entries[OF reg] by simp
  finally show ?thesis by (simp add: comp_def)
qed

lemma key_at_neq:
  assumes "0 \<le> t1" and "t1 div 1000000 < t2 div 1000000" and "t2 < year10000"
  shows "key_at rnd t1 A \<noteq> key_at rnd t2 B"
proof
  assume "key_at rnd t1 A = key_at rnd t2 B"
  then have "A @ ('':'' @ MarshalText (id_at rnd t1)) = B @ ('':'' @ MarshalText (id_at rnd t2))"
    by (simp add: key_at_def)
  then have "MarshalText (id_at rnd t1) = MarshalText (id_at rnd t2)"
    by (subst (asm) append_eq_append_conv) (simp_all add: length_MarshalText)
  with id_at_less_ms[OF assms, of rnd] show False by simp
qed

lemma length_kv_Set_new: "k \<notin> fst ` set t \<Longrightarrow> length (kv_Set k v t) = Suc (length t)"
  by (induction k v t rule: kv_Set.induct) auto

lemma Appends_count:
  assumes "fault p = None" and "kvstore p = (Inr h, p')"
    and "\<forall>x\<in>set (items h). \<exists>t B. fst x = key_at rnd t B \<and> 0 \<le> t \<and>
           (\<forall>e\<in>set es. t div 1000000 < fst e div 1000000)"
    and "sorted_wrt (\<lambda>a b. fst a div 1000000 < fst b div 1000000) es"
    and "\<forall>e\<in>set es. 0 \<le> fst e \<and> fst e < year10000 \<and> TypeOf (snd (snd e)) \<in> gobRegistry p"
  shows "\<exists>h' q. kvstore (Appends rnd es p) = (Inr h', q) \<and>
      length (items h') = length (items h) + length es"
  using assms
proof (induction es arbitrary: p h p')
  case Nil
  then show ?case by simp
next
  case (Cons e es)
  obtain t B v where e: "e = (t, B, v)" by (cases e)
  let ?key = "key_at rnd t B"
  let ?val = "JsonRecord (record_at rnd t v)"
  let ?h = "h\<lparr>items := kv_Set ?key ?val (items h)\<rparr>"
  let ?q = "p'\<lparr>store := (store p')\<lparr>db := Some ?h\<rparr>,
      disk := (if inMemory h then disk p' else kv_Set ?key ?val (items h))\<rparr>"
  from Cons.prems(5) have t: "0 \<le> t" "t < year10000" and g: "TypeOf v \<in> gobRegistry p"
    by (auto simp: e)
  have app: "Append rnd t B v p = (Ok (), ?q)"
    using Append_ok[OF g t Cons.prems(1,2)] .
  have p': "p' = p\<lparr>store := (store p)\<lparr>db := Some h\<rparr>\<rparr>" using Cons.prems(2) by (rule kvstore_Inr)
  have fq: "fault ?q = None" using Cons.prems(1) by (simp add: p')
  have kq: "kvstore ?q = (Inr ?h, ?q)" by (simp add: kvstore_def)
  have new: "?key \<notin> fst ` set (items h)"
  proof
    assume "?key \<in> fst ` set (items h)"
    then obtain x where x: "x \<in> set (items h)" "fst x = ?key" by auto
    with Cons.prems(3) obtain t0 B0 where t0: "fst x = key_at rnd t0 B0" "0 \<le> t0"
      "\<forall>e\<in>set (e # es). t0 div 1000000 < fst e div 1000000" by blast
    from t0(3) have "t0 div 1000000 < t div 1000000" by (simp add: e)
    with key_at_neq[of t0 t rnd B0 B] t(2) x(2) t0 show False by simp
  qed
  then have len: "length (items ?h) = Suc (length (items h))" by (simp add: length_kv_Set_new)
  have keys: "\<forall>x\<in>set (items ?h). \<exists>t B. fst x = key_at rnd t B \<and> 0 \<le> t \<and>
           (\<forall>e\<in>set es. t div 1000000 < fst e div 1000000)"
  proof
    fix x assume "x \<in> set (items ?h)"
    then have "fst x \<in> fst ` set (kv_Set ?key ?val (items h))" by simp
    then have "fst x = ?key \<or> fst x \<in> fst ` set (items h)" by (simp add: kv_Set_keys)
    then show "\<exists>t B. fst x = key_at rnd t B \<and> 0 \<le> t \<and>
           (\<forall>e\<in>set es. t div 1000000 < fst e div 1000000)"
    proof
      assume "fst x = ?key"
      with t(1) Cons.prems(4) show ?thesis by (auto simp: e)
    next
      assume "fst x \<in> fst ` set (items h)"
      then obtain y where y: "y \<in> set (items h)" "fst y = fst x" by auto
      with Cons.prems(3) obtain t0 B0 where "fst y = key_at rnd t0 B0" "0 \<le> t0"
        "\<forall>e\<in>set (e # es). t0 div 1000000 < fst e div 1000000" by blast
      with y(2) show ?thesis by (intro exI[of _ t0] exI[of _ B0]) simp
    qed
  qed
  have srt: "sorted_wrt (\<lambda>a b. fst a div 1000000 < fst b div 1000000) es"
    using Cons.prems(4) by simp
  have rest: "\<forall>e\<in>set es. 0 \<le> fst e \<and> fst e < year10000 \<and> TypeOf (snd (snd e)) \<in> gobRegistry ?q"
    using Cons.prems(5) by (simp add: p')
  have step: "Appends rnd (e # es) p = Appends rnd es ?q" using app by (simp add: e)
  from Cons.IH[OF fq kq keys srt rest] len
  show ?case unfolding step by auto
qed

text \<open>
  When every append sees a later millisecond than the one before it, a store that was
  empty lists as many keys as there were appends.
\<close>

lemma ListKeys_Appends_count:
  assumes "fault p = None" and "fst (ListKeys p) = Ok []"
    and "sorted_wrt (\<lambda>a b. fst a div 1000000 < fst b div 1000000) es"
    and "\<forall>e\<in>set es. 0 \<le> fst e \<and> fst e < year10000 \<and> TypeOf (snd (snd e)) \<in> gobRegistry p"
  shows "\<exists>ks. fst (ListKeys (Appends rnd es p)) = Ok ks \<and> length ks = length es"
proof -
  obtain r p' where k: "kvstore p = (r, p')" by (cases "kvstore p")
  with assms(2) obtain h where h: "r = Inr h" by (cases r) (auto simp: ListKeys_def)
  from assms(2) k h have empty: "items h = []" by (simp add: ListKeys_def ListKeys_loop_eq)
  from Appends_count[OF assms(1) k[unfolded h], of rnd es] empty assms(3,4)
  obtain h' q where "kvstore (Appends rnd es p) = (Inr h', q)" "length (items h') = length es"
    by auto
  then show ?thesis by (simp add: ListKeys_def ListKeys_loop_eq)
qed

section \<open>Appends within one millisecond\<close>

text \<open>
  Two values appended to one aggregate one nanosecond apart, with a random source whose
  first ten bytes are larger for the first seed than for the second: both records are
  stored, and \<open>Read\<close> returns the second value before the first.
\<close>

lemma Read_after_same_millisecond_appends:
  "fst (Read ''test.1''
          (snd (Append (\<lambda>s. if s = 1609459200000000000 then 1 else 0) 1609459200000000001
                  ''test.1'' (Test 2)
             (snd (Append (\<lambda>s. if s = 1609459200000000000 then 1 else 0) 1609459200000000000
                     ''test.1'' (Test 1)
                (Register (Test 0) (start MemoryStore []))))))) = Ok [Test 2, Test 1]"
proof -
  have lt: "MarshalText (ULID 1609459200000 0) < MarshalText (ULID 1609459200000 1)"
    by (rule MarshalText_less_entropy) simp_all
  then have ne: "MarshalText (ULID 1609459200000 0) \<noteq> MarshalText (ULID 1609459200000 1)"
    and nlt: "\<not> MarshalText (ULID 1609459200000 1) < MarshalText (ULID 1609459200000 0)"
    by auto
  show ?thesis
    by (simp add: scenario_defs lt ne nlt)
qed

section \<open>Text order and byte order of identifiers agree\<close>

lemma MarshalText_order: "(MarshalText a \<le> MarshalText b) = ulid_le a b"
proof (cases "ulid_le a b")
  case True
  then consider "ulid_time a < ulid_time b"
    | "ulid_time a = ulid_time b" "ulid_entropy a < ulid_entropy b"
    | "ulid_time a = ulid_time b" "ulid_entropy a = ulid_entropy b"
    by (auto simp: ulid_le_def order_le_less)
  then have "MarshalText a \<le> MarshalText b"
  proof cases
    case 1 then show ?thesis using MarshalText_less_time[of a b] by simp
  next
    case 2 then show ?thesis using MarshalText_less_entropy[of a b] by simp
  next
    case 3 then show ?thesis by (simp add: MarshalText_def)
  qed
  with True show ?thesis by simp
next
  case False
  then consider "ulid_time b < ulid_time a"
    | "ulid_time b = ulid_time a" "ulid_entropy b < ulid_entropy a"
    by (auto simp: ulid_le_def not_le not_less order_le_less)
  then have "MarshalText b < MarshalText a"
  proof cases
    case 1 then show ?thesis by (rule MarshalText_less_time)
  next
    case 2 then show ?thesis by (rule MarshalText_less_entropy)
  qed
  with False show ?thesis by simp
qed

section \<open>Engine failures are returned\<close>

lemma engine_fault_on_open:
  assumes "db (store p) = None" and "fault p = Some e"
  shows "Read A p = (Err e, p)" and "ListKeys p = (Err e, p)"
    and "ListKeysForAggregate A p = (Err e, p)"
  using assms
  by (simp_all add: Read_def ListKeys_def ListKeysForAggregate_def kvstore_def badger_Open_def
      Let_def split: option.splits)

lemma engine_fault_on_Close:
  "db (store p) = Some h \<Longrightarrow> fault p = Some e \<Longrightarrow> Close p = (Err e, p)"
  by (simp add: Close_def badger_Close_def)

end
